theory Spec2Isabelle
  imports Main "HOL-Library.Sublist"
begin

chapter \<open>Definitions\<close>

section \<open>JavaScript values\<close>

text \<open>
  The values that flow through the hooks and the reactive package. Objects and arrays are
  references into a heap, so identity is the reference; numbers are integers together with
  \<open>NaN\<close>, which is enough for the comparisons the sources make.
\<close>

datatype jsval =
    VUndefined
  | VNull
  | VBool bool
  | VNum int
  | VNaN
  | VStr string
  | VSymbol nat
  | VBigInt int
  | VFun nat
  | VRef nat

text \<open>\<open>a === b\<close>: equal values, except that \<open>NaN\<close> is not equal to itself.\<close>

fun strict_eq :: "jsval \<Rightarrow> jsval \<Rightarrow> bool" where
  "strict_eq VNaN b = False"
| "strict_eq a VNaN = False"
| "strict_eq a b = (a = b)"

fun truthy :: "jsval \<Rightarrow> bool" where
  "truthy VUndefined = False"
| "truthy VNull = False"
| "truthy (VBool b) = b"
| "truthy (VNum n) = (n \<noteq> 0)"
| "truthy VNaN = False"
| "truthy (VStr s) = (s \<noteq> [])"
| "truthy (VSymbol s) = True"
| "truthy (VBigInt n) = (n \<noteq> 0)"
| "truthy (VFun f) = True"
| "truthy (VRef r) = True"

fun typeof :: "jsval \<Rightarrow> string" where
  "typeof VUndefined = ''undefined''"
| "typeof VNull = ''object''"
| "typeof (VBool b) = ''boolean''"
| "typeof (VNum n) = ''number''"
| "typeof VNaN = ''number''"
| "typeof (VStr s) = ''string''"
| "typeof (VSymbol s) = ''symbol''"
| "typeof (VBigInt n) = ''bigint''"
| "typeof (VFun f) = ''function''"
| "typeof (VRef r) = ''object''"

text \<open>
  Assignment \<open>o[k] = v\<close> on the enumerable own properties of an object, kept in enumeration
  order: an existing key keeps its place, a new key goes last.
\<close>

fun assoc_set :: "(string \<times> 'v) list \<Rightarrow> string \<Rightarrow> 'v \<Rightarrow> (string \<times> 'v) list" where
  "assoc_set [] k v = [(k, v)]"
| "assoc_set ((k', v') # kvs) k v =
     (if k' = k then (k', v) # kvs else (k', v') # assoc_set kvs k v)"

section \<open>Lifecycle registry: \<open>packages/react/src/ComponentSetup.ts\<close>\<close>

text \<open>
  \<open>ComponentSetup\<close> keeps three arrays of zero-argument disposers. A disposer is a value of
  type \<open>'d\<close>; what calling it does is a parameter: given the state \<open>'w\<close> of everything
  outside the \<open>ComponentSetup\<close>, the call returns or throws and leaves a new outside state.
  Every call is also recorded in a trace, oldest first. Disposers are taken not to call
  back into the \<open>ComponentSetup\<close> that holds them.
\<close>

datatype outcome = Returned | Threw

record 'd ComponentSetup =
  stopList :: "'d list"
  stopAutorunList :: "'d list"
  stopWatchList :: "'d list"

type_synonym ('d, 'w) disposer_sem = "'d \<Rightarrow> 'w \<Rightarrow> outcome \<times> 'w"

type_synonym ('d, 'w) setup_state = "'d ComponentSetup \<times> 'w \<times> 'd list"


text \<open>
  \<open>list.forEach(s => s())\<close>: the entries are called from index 0 upwards; when a call
  throws, the loop is left at once and the exception goes to the caller.
\<close>

fun forEach_call :: "('d, 'w) disposer_sem \<Rightarrow> 'd list \<Rightarrow> 'w \<times> 'd list \<Rightarrow> outcome \<times> 'w \<times> 'd list" where
  "forEach_call sem [] (w, tr) = (Returned, w, tr)"
| "forEach_call sem (s # ss) (w, tr) =
     (case sem s w of
        (Threw, w') \<Rightarrow> (Threw, w', tr @ [s])
      | (Returned, w') \<Rightarrow> forEach_call sem ss (w', tr @ [s]))"


text \<open>
  The three clear-all methods. The assignment of \<open>[]\<close> comes after the loop and there is no
  \<open>try\<close>, so it is reached only when the loop returns.
\<close>

definition removeAllStopList ::
  "('d, 'w) disposer_sem \<Rightarrow> ('d, 'w) setup_state \<Rightarrow> outcome \<times> ('d, 'w) setup_state" where
  "removeAllStopList sem st =
     (case st of (c, w, tr) \<Rightarrow>
        (case forEach_call sem (stopList c) (w, tr) of
           (Threw, w', tr') \<Rightarrow> (Threw, c, w', tr')
         | (Returned, w', tr') \<Rightarrow> (Returned, c\<lparr>stopList := []\<rparr>, w', tr')))"






text \<open>The calls of an aborted or completed loop: the entries up to some index, in order.\<close>

definition called_upto :: "'d list \<Rightarrow> 'd list \<Rightarrow> 'd list \<Rightarrow> bool" where
  "called_upto ss tr tr' = (\<exists>k \<le> length ss. tr' = tr @ take k ss)"




section \<open>Global data accessor: \<open>packages/hooks/src/hooks/useGlobalData.ts\<close>\<close>

text \<open>
  The hook works on \<open>realGlobal.data\<close> and on the state cell behind \<open>useState(0)\<close>. Neither
  \<open>App\<close> (\<open>../common/App\<close>) nor \<open>useState\<close> (\<open>./useState\<close>) is among the sources. Reading
  and writing a property of \<open>realGlobal.data\<close> are parameters \<open>rd\<close> and \<open>wr\<close> of the accessor
  functions, over any representation \<open>'s\<close> of that object.
\<close>

text \<open>
  Modelled from the spec: \<open>useState\<close> is not among the sources. The pair
  \<open>[counter, setCounter]\<close> is the value of the re-render counter at the time the hook runs
  and a setter that overwrites the counter.
\<close>

record 's GlobalDataState =
  data :: 's
  counterState :: int

text \<open>
  The object the hook returns closes over the constant \<open>counter\<close>, so an accessor carries
  that number with it.
\<close>

record accessor =
  counter :: int

definition useGlobalData :: "'s GlobalDataState \<Rightarrow> accessor" where
  "useGlobalData st = \<lparr>counter = counterState st\<rparr>"

definition get_acc ::
  "('s \<Rightarrow> string \<Rightarrow> jsval) \<Rightarrow> accessor \<Rightarrow> string \<Rightarrow> 's GlobalDataState \<Rightarrow> jsval" where
  "get_acc rd acc key st = rd (data st) key"

definition set_acc ::
  "('s \<Rightarrow> string \<Rightarrow> jsval) \<Rightarrow> ('s \<Rightarrow> string \<Rightarrow> jsval \<Rightarrow> 's) \<Rightarrow> accessor \<Rightarrow> string \<Rightarrow> jsval
     \<Rightarrow> 's GlobalDataState \<Rightarrow> 's GlobalDataState" where
  "set_acc rd wr acc key val st =
     (if \<not> strict_eq (rd (data st) key) val
      then st\<lparr>data := wr (data st) key val, counterState := counter acc + 1\<rparr>
      else st)"

text \<open>
  Modelled from the spec: \<open>App\<close> is not among the sources. The spec calls
  \<open>realGlobal.data\<close> a shared store with a keyed read and a keyed write; in this store a
  key that was never written reads \<open>undefined\<close> and a write puts the value under its key.
  What a JavaScript object inherits from its prototype is not part of it.
\<close>

definition keyed_read :: "(string \<Rightarrow> jsval option) \<Rightarrow> string \<Rightarrow> jsval" where
  "keyed_read store key = (case store key of None \<Rightarrow> VUndefined | Some v \<Rightarrow> v)"

definition keyed_write :: "(string \<Rightarrow> jsval option) \<Rightarrow> string \<Rightarrow> jsval \<Rightarrow> (string \<Rightarrow> jsval option)" where
  "keyed_write store key val = store(key \<mapsto> val)"

text \<open>A component that renders for the first time: nothing stored, the counter at 0.\<close>

definition firstRender :: "(string \<Rightarrow> jsval option) GlobalDataState" where
  "firstRender = \<lparr>data = (\<lambda>_. None), counterState = 0\<rparr>"

section \<open>Environment substitution: \<open>pdsCustomHandle\<close> in \<open>createPDSGulpConfig.ts\<close>\<close>

text \<open>
  \<open>process.env\<close> is the list of its entries in the order \<open>Object.keys\<close> reports them; its
  keys are distinct. \<open>JSON.stringify\<close>, the \<open>replace\<close> plugin piped into a stream and the
  caller's \<open>cb\<close> belong to the host and are parameters.
\<close>

type_synonym process_env = "(string \<times> string) list"

text \<open>\<open>/^GOLDFISH_APP/.test(key)\<close>\<close>

definition prefixRE_test :: "string \<Rightarrow> bool" where
  "prefixRE_test key = (take (length ''GOLDFISH_APP'') key = ''GOLDFISH_APP'')"

definition env_selected :: "string \<Rightarrow> bool" where
  "env_selected key = (prefixRE_test key \<or> key = ''NODE_ENV'')"

text \<open>The loop over \<open>Object.keys(process.env)\<close> that fills \<open>envs\<close>.\<close>

definition collect_envs :: "process_env \<Rightarrow> (string \<times> string) list" where
  "collect_envs env =
     fold (\<lambda>(key, val) envs. if env_selected key then assoc_set envs key val else envs) env []"

text \<open>The search string and the replacement text of each \<open>replace\<close> the returned handler pipes.\<close>

definition replacements :: "(string \<Rightarrow> string) \<Rightarrow> process_env \<Rightarrow> (string \<times> string) list" where
  "replacements stringify env =
     map (\<lambda>(key, val). (''process.env.'' @ key, stringify val)) (collect_envs env)"

definition pdsCustomHandle ::
  "process_env \<Rightarrow> (string \<Rightarrow> string) \<Rightarrow> (string \<Rightarrow> string \<Rightarrow> 's \<Rightarrow> 's) \<Rightarrow> ('s \<Rightarrow> 'r) \<Rightarrow> 's \<Rightarrow> 'r" where
  "pdsCustomHandle env stringify pipe_replace cb stream =
     cb (fold (\<lambda>(key, val) s. pipe_replace (''process.env.'' @ key) (stringify val) s)
           (collect_envs env) stream)"

text \<open>Two environments that differ outside the selected variables, and a stream that records its pipes.\<close>

definition envA :: process_env where
  "envA = [(''PATH'', ''/usr/bin''), (''NODE_ENV'', ''production''),
           (''GOLDFISH_APP_ID'', ''42''), (''SECRET_TOKEN'', ''hunter2'')]"

definition envB :: process_env where
  "envB = [(''NODE_ENV'', ''production''), (''HOME'', ''/root''),
           (''GOLDFISH_APP_ID'', ''42''), (''SECRET_TOKEN'', ''other'')]"

definition quoted :: "string \<Rightarrow> string" where
  "quoted v = CHR 0x22 # v @ [CHR 0x22]"

definition record_pipe :: "string \<Rightarrow> string \<Rightarrow> (string \<times> string) list \<Rightarrow> (string \<times> string) list" where
  "record_pipe search replacement stream = stream @ [(search, replacement)]"

section \<open>Dependency finder: \<open>findMiniDependencies/findJsDependencyModules.ts\<close>\<close>

text \<open>
  What the finder sees of the file system: the readable, parsable files with the import
  sources that the traversal of each one records, in traversal order (a finite list, so
  the import graph is finite); \<open>resolveModule\<close>, given the importing file and the corrected
  import path; and the hits of \<open>fileCache\<close>, which hand back a stored result without
  running the callback. Reading or parsing any other file throws.
\<close>

datatype find_error = ReadError string | CannotFind string string

record Dependency =
  importPath :: string
  importFilePath :: string
  jsPath :: string

record finder_env =
  files :: "(string \<times> string list) list"
  resolveModule :: "string \<Rightarrow> string \<Rightarrow> string option"
  fileCache :: "string \<Rightarrow> Dependency list option"

text \<open>
  The \<open>Finder\<close> object: its \<open>visited\<close> set, and next to it the log of the files whose content
  was read and parsed, oldest first.
\<close>

record Finder =
  visited :: "string set"
  parsed :: "string list"

type_synonym run_result = "(find_error + Dependency list) \<times> Finder"

definition startsWith :: "string \<Rightarrow> string \<Rightarrow> bool" where
  "startsWith s pre = (take (length pre) s = pre)"

definition endsWith :: "string \<Rightarrow> string \<Rightarrow> bool" where
  "endsWith s suf = (length suf \<le> length s \<and> drop (length s - length suf) s = suf)"

definition correctImportPath :: "string \<Rightarrow> string" where
  "correctImportPath p = (if p = ''..'' \<or> p = ''.'' then p @ ''/'' else p)"

text \<open>\<open>lodash.uniqBy\<close>: the first element of every class of the criterion stays.\<close>

fun uniqBy :: "('a \<Rightarrow> 'b) \<Rightarrow> 'a list \<Rightarrow> 'b list \<Rightarrow> 'a list" where
  "uniqBy f [] seen = []"
| "uniqBy f (x # xs) seen =
     (if f x \<in> set seen then uniqBy f xs seen else x # uniqBy f xs (seen @ [f x]))"

text \<open>The guard at the head of \<open>run\<close>.\<close>

definition skips :: "Finder \<Rightarrow> string \<Rightarrow> bool" where
  "skips st p = (\<not> startsWith p ''/'' \<or> endsWith p ''.json'' \<or> p \<in> visited st)"

text \<open>
  \<open>resolveModule(correctImportPath(importPath), { paths: [path.dirname(jsPath)] })\<close>, with
  \<open>None\<close> for every result that \<open>!importFilePath\<close> rejects (nothing found, or the empty
  string).
\<close>

definition resolved :: "finder_env \<Rightarrow> string \<Rightarrow> string \<Rightarrow> string option" where
  "resolved E p imp =
     (case resolveModule E p (correctImportPath imp) of
        None \<Rightarrow> None
      | Some f \<Rightarrow> if f = [] then None else Some f)"

text \<open>
  The traversal of one file: \<open>record\<close> is called on each import source in turn; it resolves
  the import (throwing when that fails), pushes the dependency and then everything the
  recursive \<open>run\<close> returns.
\<close>

fun record_all ::
  "(Finder \<Rightarrow> string \<Rightarrow> run_result option) \<Rightarrow> finder_env \<Rightarrow> string \<Rightarrow> string list
     \<Rightarrow> Dependency list \<Rightarrow> Finder \<Rightarrow> run_result option" where
  "record_all rec E p [] result st = Some (Inr result, st)"
| "record_all rec E p (imp # imps) result st =
     (case resolved E p imp of
        None \<Rightarrow> Some (Inl (CannotFind imp p), st)
      | Some f \<Rightarrow>
          (case rec st f of
             None \<Rightarrow> None
           | Some (Inl e, st') \<Rightarrow> Some (Inl e, st')
           | Some (Inr deps, st') \<Rightarrow>
               record_all rec E p imps
                 (result @ [\<lparr>importPath = imp, importFilePath = f, jsPath = p\<rparr>] @ deps) st'))"

definition run_body ::
  "(Finder \<Rightarrow> string \<Rightarrow> run_result option) \<Rightarrow> finder_env \<Rightarrow> Finder \<Rightarrow> string
     \<Rightarrow> run_result option" where
  "run_body rec E st p =
     (let st1 = st\<lparr>visited := insert p (visited st)\<rparr> in
      case fileCache E p of
        Some r \<Rightarrow> Some (Inr r, st1)
      | None \<Rightarrow>
          (case map_of (files E) p of
             None \<Rightarrow> Some (Inl (ReadError p), st1)
           | Some imps \<Rightarrow>
               (case record_all rec E p imps [] (st1\<lparr>parsed := parsed st1 @ [p]\<rparr>) of
                  None \<Rightarrow> None
                | Some (Inl e, st') \<Rightarrow> Some (Inl e, st')
                | Some (Inr result, st') \<Rightarrow> Some (Inr (uniqBy importFilePath result []), st'))))"

text \<open>
  \<open>Finder.run\<close>. The recursion is bounded by a fuel argument: \<open>None\<close> means the fuel ran
  out before \<open>run\<close> returned or threw; a thrown error is \<open>Inl\<close>.
\<close>

primrec run :: "nat \<Rightarrow> finder_env \<Rightarrow> Finder \<Rightarrow> string \<Rightarrow> run_result option" where
  "run 0 E st p = (if skips st p then Some (Inr [], st) else None)"
| "run (Suc n) E st p = (if skips st p then Some (Inr [], st) else run_body (run n E) E st p)"

definition findJsDependencyModules :: "nat \<Rightarrow> finder_env \<Rightarrow> string \<Rightarrow> run_result option" where
  "findJsDependencyModules n E p = run n E \<lparr>visited = {}, parsed = []\<rparr> p"

text \<open>Measures and invariants of a run.\<close>

definition unvisited :: "finder_env \<Rightarrow> Finder \<Rightarrow> nat" where
  "unvisited E st = card (set (map fst (files E)) - visited st)"

definition finder_ok :: "Finder \<Rightarrow> bool" where
  "finder_ok st = (distinct (parsed st) \<and> set (parsed st) \<subseteq> visited st)"

definition grows :: "Finder \<Rightarrow> Finder \<Rightarrow> bool" where
  "grows st st' = (visited st \<subseteq> visited st' \<and> (finder_ok st \<longrightarrow> finder_ok st'))"

text \<open>Two files that import each other, a JSON import and a package import.\<close>

definition cyclicEnv :: finder_env where
  "cyclicEnv =
     \<lparr>files = [(''/src/a.js'', [''./b'', ''./data.json'']), (''/src/b.js'', [''./a'', ''lodash''])],
      resolveModule = (\<lambda>p imp.
        if imp = ''./a'' then Some ''/src/a.js''
        else if imp = ''./b'' then Some ''/src/b.js''
        else if imp = ''./data.json'' then Some ''/src/data.json''
        else if imp = ''lodash'' then Some ''lodash''
        else None),
      fileCache = (\<lambda>_. None)\<rparr>"

section \<open>Deep watch: \<open>packages/reactive/src/watchDeep.ts\<close>\<close>

subsection \<open>Objects, arrays and keys\<close>

text \<open>
  A key of a key path is a number (an array index) or a string (an object key). An object
  is the list of its enumerable properties in the order \<open>for ... in\<close> reports them; an array
  is the list of its slots, \<open>None\<close> for a hole. The heap maps every reference to its
  object; a reference that was never allocated holds an empty object.
\<close>

datatype key = KNum nat | KStr string

datatype jsobj = JObject "(string \<times> jsval) list" | JArray "jsval option list"

text \<open>
  \<open>curObj[key]\<close>. The walk reads an object with the string keys it enumerated and an array
  with the indices it enumerated; the other combinations do not arise and read
  \<open>undefined\<close>.
\<close>

fun getProp :: "jsobj \<Rightarrow> key \<Rightarrow> jsval" where
  "getProp (JObject kvs) (KStr k) = (case map_of kvs k of Some v \<Rightarrow> v | None \<Rightarrow> VUndefined)"
| "getProp (JArray xs) (KNum i) =
     (if i < length xs then (case xs ! i of Some v \<Rightarrow> v | None \<Rightarrow> VUndefined) else VUndefined)"
| "getProp ob k = VUndefined"

text \<open>\<open>curObj[key] = v\<close>; an index past the end of an array extends it, leaving holes.\<close>

fun setProp :: "jsobj \<Rightarrow> key \<Rightarrow> jsval \<Rightarrow> jsobj" where
  "setProp (JObject kvs) (KStr k) v = JObject (assoc_set kvs k v)"
| "setProp (JArray xs) (KNum i) v =
     JArray (if i < length xs then xs[i := Some v]
             else xs @ replicate (i - length xs) None @ [Some v])"
| "setProp ob k v = ob"

text \<open>
  The keys the walk visits: \<open>curObj.forEach((_, index) => ...)\<close> passes the indices of the
  slots that hold an element, upwards from 0, as numbers; \<open>for (const key in curObj)\<close>
  passes the property names, as strings.
\<close>

fun enum_keys :: "jsobj \<Rightarrow> key list" where
  "enum_keys (JArray xs) = map KNum (filter (\<lambda>i. xs ! i \<noteq> None) [0..<length xs])"
| "enum_keys (JObject kvs) = map (\<lambda>kv. KStr (fst kv)) kvs"

text \<open>
  The test \<open>curObj && typeof curObj === 'object'\<close>, giving the reference of the object to
  walk when it holds.
\<close>

definition asObject :: "jsval \<Rightarrow> nat option" where
  "asObject v =
     (if truthy v \<and> typeof v = ''object''
      then (case v of VRef r \<Rightarrow> Some r | _ \<Rightarrow> None)
      else None)"

text \<open>
  Modelled from the spec: \<open>isObject\<close> of \<open>@goldfishjs/utils\<close> is not among the sources; the
  spec calls the values it accepts composite (object or array).
\<close>

fun isObject :: "jsval \<Rightarrow> bool" where
  "isObject (VRef r) = True"
| "isObject v = False"

subsection \<open>The watcher and the state it works on\<close>

record IWatchDeepOptions =
  immediate :: bool

text \<open>
  The \<open>Watcher\<close> instance: the root object and the options (\<open>None\<close> when the caller passed
  none). Its callback is the caller's; what it does is not known, so every call of it is
  logged with its five arguments. \<open>customWatch\<close> is taken to be absent, so \<open>baseWatch\<close> is
  the package's own \<open>watch\<close>.
\<close>

record Watcher =
  obj :: jsval
  options :: "IWatchDeepOptions option"

text \<open>\<open>this.options && this.options.immediate\<close>\<close>

definition opt_immediate :: "Watcher \<Rightarrow> bool" where
  "opt_immediate W = (case options W of None \<Rightarrow> False | Some opts \<Rightarrow> immediate opts)"

text \<open>
  One record for each call of the inner arrow function \<open>iterate(key)\<close>: the variables its
  closures capture (\<open>curObj\<close>, \<open>key\<close>, the enclosing \<open>keyPathList\<close>, its own \<open>keyStopList\<close>)
  and the state of the one watch it registers (the value last seen, whether its disposer
  has run). The position of the record in the list identifies the watch, and a disposer is
  that position.
\<close>

record KeyWatch =
  target :: nat
  wkey :: key
  keyPathList :: "key list"
  lastValue :: jsval
  keyStopList :: "nat list"
  stopped :: bool

record Call =
  c_obj :: jsval
  c_keyPathList :: "key list"
  c_newV :: jsval
  c_oldV :: jsval
  c_options :: jsval

record world =
  heap :: "nat \<Rightarrow> jsobj"
  watches :: "KeyWatch list"
  calls :: "Call list"

type_synonym iter = "world \<Rightarrow> jsval \<Rightarrow> key list \<Rightarrow> (nat list \<times> world) option"

text \<open>
  Modelled from the spec: the disposer that \<open>watch\<close> (\<open>./watch\<close>, not among the sources)
  returns ends its own registration and nothing else; running it again changes nothing.
\<close>

definition stop :: "nat \<Rightarrow> world \<Rightarrow> world" where
  "stop i w = w\<lparr>watches := (watches w)[i := (watches w ! i)\<lparr>stopped := True\<rparr>]\<rparr>"

text \<open>\<open>stops.forEach(stop => stop())\<close>\<close>

definition stopAll :: "nat list \<Rightarrow> world \<Rightarrow> world" where
  "stopAll stops w = fold stop stops w"

definition clearKeyStopList :: "nat \<Rightarrow> world \<Rightarrow> world" where
  "clearKeyStopList i w = w\<lparr>watches := (watches w)[i := (watches w ! i)\<lparr>keyStopList := []\<rparr>]\<rparr>"

definition pushKeyStopList :: "nat \<Rightarrow> nat list \<Rightarrow> world \<Rightarrow> world" where
  "pushKeyStopList i stops w =
     w\<lparr>watches := (watches w)[i := (watches w ! i)\<lparr>keyStopList := keyStopList (watches w ! i) @ stops\<rparr>]\<rparr>"

text \<open>\<open>this.callback(this.obj, [...keyPathList, key], newV, oldV, options)\<close>\<close>

definition callOuter :: "Watcher \<Rightarrow> key list \<Rightarrow> jsval \<Rightarrow> jsval \<Rightarrow> jsval \<Rightarrow> world \<Rightarrow> world" where
  "callOuter W p newV oldV opts w =
     w\<lparr>calls := calls w @
        [\<lparr>c_obj = obj W, c_keyPathList = p, c_newV = newV, c_oldV = oldV, c_options = opts\<rparr>]\<rparr>"

text \<open>\<open>keyStopList.forEach(stop => stop()); keyStopList.splice(0, keyStopList.length)\<close>\<close>

definition stopChildren :: "nat \<Rightarrow> world \<Rightarrow> world" where
  "stopChildren i w = clearKeyStopList i (stopAll (keyStopList (watches w ! i)) w)"

subsection \<open>The walk\<close>

text \<open>
  The callback that the inner \<open>iterate(key)\<close> hands to \<open>baseWatch\<close>, for the closure with
  record \<open>i\<close>; \<open>rec\<close> is \<open>this.iterate\<close>.
\<close>

definition watchCallback ::
  "iter \<Rightarrow> Watcher \<Rightarrow> nat \<Rightarrow> jsval \<Rightarrow> jsval \<Rightarrow> jsval \<Rightarrow> world \<Rightarrow> world option" where
  "watchCallback rec W i newV oldV opts w =
     (let p = keyPathList (watches w ! i) @ [wkey (watches w ! i)];
          w1 = callOuter W p newV oldV opts w;
          w2 = (if isObject oldV then stopChildren i w1 else w1)
      in if isObject newV
         then (case rec w2 newV p of
                 None \<Rightarrow> None
               | Some (stops, w3) \<Rightarrow> Some (pushKeyStopList i stops w3))
         else Some w2)"

text \<open>The closure record of a fresh call of the inner \<open>iterate(key)\<close>, its getter evaluated once.\<close>

definition register :: "nat \<Rightarrow> key \<Rightarrow> key list \<Rightarrow> world \<Rightarrow> world" where
  "register r k kp w =
     w\<lparr>watches := watches w @
        [\<lparr>target = r, wkey = k, keyPathList = kp, lastValue = getProp (heap w r) k,
          keyStopList = [], stopped = False\<rparr>]\<rparr>"

text \<open>
  Modelled from the spec: \<open>watch\<close> (\<open>./watch\<close>, not among the sources) evaluates the getter
  once, and with the \<open>immediate\<close> option calls the callback at once with the value, no old
  value and no change options; it returns the disposer of the registration.
\<close>

definition baseWatch ::
  "iter \<Rightarrow> Watcher \<Rightarrow> nat \<Rightarrow> key \<Rightarrow> key list \<Rightarrow> world \<Rightarrow> (nat \<times> world) option" where
  "baseWatch rec W r k kp w =
     (let i = length (watches w);
          w1 = register r k kp w
      in if opt_immediate W
         then (case watchCallback rec W i (getProp (heap w r) k) VUndefined VUndefined w1 of
                 None \<Rightarrow> None
               | Some w2 \<Rightarrow> Some (i, w2))
         else Some (i, w1))"

text \<open>
  The inner arrow function \<open>iterate(key)\<close>; the disposer it pushes onto \<open>stopList\<close> is
  returned with the new state.
\<close>

definition iterate_key ::
  "iter \<Rightarrow> Watcher \<Rightarrow> nat \<Rightarrow> key list \<Rightarrow> key \<Rightarrow> world \<Rightarrow> (nat \<times> world) option" where
  "iterate_key rec W r kp k w =
     (case baseWatch rec W r k kp w of
        None \<Rightarrow> None
      | Some (i, w1) \<Rightarrow>
          if \<not> opt_immediate W
          then (case rec w1 (getProp (heap w1 r) k) (kp @ [k]) of
                  None \<Rightarrow> None
                | Some (stops, w2) \<Rightarrow> Some (i, pushKeyStopList i stops w2))
          else Some (i, w1))"

text \<open>The loop over the keys; \<open>acc\<close> is \<open>stopList\<close> so far.\<close>

fun iterKeys ::
  "iter \<Rightarrow> Watcher \<Rightarrow> nat \<Rightarrow> key list \<Rightarrow> key list \<Rightarrow> nat list \<Rightarrow> world
     \<Rightarrow> (nat list \<times> world) option" where
  "iterKeys rec W r kp [] acc w = Some (acc, w)"
| "iterKeys rec W r kp (k # ks) acc w =
     (case iterate_key rec W r kp k w of
        None \<Rightarrow> None
      | Some (i, w1) \<Rightarrow> iterKeys rec W r kp ks (acc @ [i]) w1)"

text \<open>
  \<open>Watcher.iterate\<close>. The fuel bounds the depth of the recursion; \<open>None\<close> means it ran out,
  as it does for every amount on a graph that contains itself, where the method never
  returns.
\<close>

primrec iterate :: "nat \<Rightarrow> Watcher \<Rightarrow> world \<Rightarrow> jsval \<Rightarrow> key list \<Rightarrow> (nat list \<times> world) option" where
  "iterate 0 W w curObj kp =
     (case asObject curObj of None \<Rightarrow> Some ([], w) | Some r \<Rightarrow> None)"
| "iterate (Suc n) W w curObj kp =
     (case asObject curObj of
        None \<Rightarrow> Some ([], w)
      | Some r \<Rightarrow> iterKeys (iterate n W) W r kp (enum_keys (heap w r)) [] w)"

definition watchDeep ::
  "nat \<Rightarrow> jsval \<Rightarrow> IWatchDeepOptions option \<Rightarrow> world \<Rightarrow> (nat list \<times> world) option" where
  "watchDeep n ob opts w = iterate n \<lparr>obj = ob, options = opts\<rparr> w ob []"

subsection \<open>Writes and notifications\<close>

text \<open>
  Modelled from the spec: the reactive container and \<open>watch\<close> are not among the sources. A
  notified watch that is not stopped evaluates its getter again and, when the value
  differs from the one last seen, remembers it and calls its callback with the new value,
  the old value and the change options.
\<close>

definition notify :: "iter \<Rightarrow> Watcher \<Rightarrow> jsval \<Rightarrow> nat \<Rightarrow> world \<Rightarrow> world option" where
  "notify rec W opts i w =
     (let reg = watches w ! i;
          newV = getProp (heap w (target reg)) (wkey reg);
          oldV = lastValue reg
      in if stopped reg \<or> strict_eq newV oldV then Some w
         else watchCallback rec W i newV oldV opts
                (w\<lparr>watches := (watches w)[i := reg\<lparr>lastValue := newV\<rparr>]\<rparr>))"

fun notifyAll :: "iter \<Rightarrow> Watcher \<Rightarrow> jsval \<Rightarrow> nat list \<Rightarrow> world \<Rightarrow> world option" where
  "notifyAll rec W opts [] w = Some w"
| "notifyAll rec W opts (i # rest) w =
     (case notify rec W opts i w of None \<Rightarrow> None | Some w1 \<Rightarrow> notifyAll rec W opts rest w1)"

definition subscribers :: "world \<Rightarrow> nat \<Rightarrow> key \<Rightarrow> nat list" where
  "subscribers w r k =
     filter (\<lambda>i. target (watches w ! i) = r \<and> wkey (watches w ! i) = k \<and> \<not> stopped (watches w ! i))
       [0..<length (watches w)]"

text \<open>
  Modelled from the spec: a write that changes the stored value stores it and notifies the
  watches subscribed to that property of that object, in subscription order; a write of
  the value already stored does nothing.
\<close>

definition writeProp ::
  "nat \<Rightarrow> Watcher \<Rightarrow> nat \<Rightarrow> key \<Rightarrow> jsval \<Rightarrow> jsval \<Rightarrow> world \<Rightarrow> world option" where
  "writeProp n W r k v opts w =
     (if strict_eq (getProp (heap w r) k) v then Some w
      else let w1 = w\<lparr>heap := (heap w)(r := setProp (heap w r) k v)\<rparr>
           in notifyAll (iterate n W) W opts (subscribers w1 r k) w1)"

subsection \<open>What is observed of a state\<close>

text \<open>The captured object, key and enclosing key path of a registration.\<close>

definition ident :: "KeyWatch \<Rightarrow> nat \<times> key \<times> key list" where
  "ident reg = (target reg, wkey reg, keyPathList reg)"



text \<open>The registrations that are still running.\<close>

definition watching :: "world \<Rightarrow> (nat \<times> key \<times> key list) list" where
  "watching w = map ident (filter (\<lambda>reg. \<not> stopped reg) (watches w))"




text \<open>The disposers, the heap and the registrations of a result, without the call log.\<close>

definition installed ::
  "('a \<times> world) option \<Rightarrow> ('a \<times> (nat \<Rightarrow> jsobj) \<times> KeyWatch list) option" where
  "installed x = map_option (\<lambda>(s, u). (s, heap u, watches u)) x"



subsection \<open>Example object graphs\<close>

text \<open>\<open>{ a: { b: 1 } }\<close> at reference 0, and a detached \<open>{ c: 2 }\<close> at reference 2.\<close>

definition heap2 :: "nat \<Rightarrow> jsobj" where
  "heap2 = (\<lambda>_. JObject [])
     (0 := JObject [(''a'', VRef 1)],
      1 := JObject [(''b'', VNum 1)],
      2 := JObject [(''c'', VNum 2)])"

definition world2 :: world where
  "world2 = \<lparr>heap = heap2, watches = [], calls = []\<rparr>"

definition W2 :: Watcher where
  "W2 = \<lparr>obj = VRef 0, options = None\<rparr>"


text \<open>\<open>{ a: { b: { c: 1 } } }\<close> at reference 0, and a detached \<open>{ x: 1 }\<close> at reference 3.\<close>

definition heap3 :: "nat \<Rightarrow> jsobj" where
  "heap3 = (\<lambda>_. JObject [])
     (0 := JObject [(''a'', VRef 1)],
      1 := JObject [(''b'', VRef 2)],
      2 := JObject [(''c'', VNum 1)],
      3 := JObject [(''x'', VNum 1)])"

definition world3 :: world where
  "world3 = \<lparr>heap = heap3, watches = [], calls = []\<rparr>"



chapter \<open>Properties\<close>

section \<open>Lifecycle registry\<close>

lemma forEach_call_result:
  "forEach_call sem ss (w, tr) = (r, w', tr') \<Longrightarrow>
     (r = Returned \<and> tr' = tr @ ss)
     \<or> (r = Threw \<and> (\<exists>k < length ss. tr' = tr @ take (Suc k) ss
            \<and> (\<exists>u. fst (sem (ss ! k) u) = Threw)))"
proof (induction ss arbitrary: w tr)
  case Nil
  then show ?case by simp
next
  case (Cons s ss)
  obtain o1 w1 where s: "sem s w = (o1, w1)" by (cases "sem s w")
  show ?case
  proof (cases o1)
    case Threw
    with Cons.prems s have "r = Threw" "tr' = tr @ [s]" by simp_all
    moreover have "fst (sem ((s # ss) ! 0) w) = Threw" using s Threw by simp
    ultimately show ?thesis by (intro disjI2 conjI exI [of _ 0]) auto
  next
    case Returned
    with Cons.prems s have "forEach_call sem ss (w1, tr @ [s]) = (r, w', tr')" by simp
    from Cons.IH [OF this] show ?thesis
    proof
      assume "r = Returned \<and> tr' = (tr @ [s]) @ ss"
      then show ?thesis by simp
    next
      assume "r = Threw \<and> (\<exists>k<length ss. tr' = (tr @ [s]) @ take (Suc k) ss
            \<and> (\<exists>u. fst (sem (ss ! k) u) = Threw))"
      then obtain k u where "r = Threw" "k < length ss" "tr' = (tr @ [s]) @ take (Suc k) ss"
        "fst (sem (ss ! k) u) = Threw" by blast
      then show ?thesis by (intro disjI2 conjI exI [of _ "Suc k"] exI [of _ u]) auto
    qed
  qed
qed


lemma forEach_call_nil: "forEach_call sem [] x = (Returned, fst x, snd x)"
  by (cases x) simp

lemma removeAllStopList_result:
  assumes "removeAllStopList sem (c, w, tr) = (r, c', w', tr')"
  shows "(r = Returned \<and> c' = c\<lparr>stopList := []\<rparr> \<and> tr' = tr @ stopList c)
     \<or> (r = Threw \<and> c' = c \<and> (\<exists>k < length (stopList c). tr' = tr @ take (Suc k) (stopList c)
            \<and> (\<exists>u. fst (sem (stopList c ! k) u) = Threw)))"
proof -
  obtain r0 w0 t0 where f: "forEach_call sem (stopList c) (w, tr) = (r0, w0, t0)"
    by (cases "forEach_call sem (stopList c) (w, tr)")
  from assms f have e: "r = r0" "w' = w0" "tr' = t0" "c' = (if r0 = Threw then c else c\<lparr>stopList := []\<rparr>)"
    by (cases r0; simp add: removeAllStopList_def)+
  from forEach_call_result [OF f] show ?thesis unfolding e by auto
qed



lemma removeAllStopList_called_upto:
  assumes "removeAllStopList sem (c, w, tr) = (r, c', w', tr')"
  shows "called_upto (stopList c) tr tr'"
proof -
  from removeAllStopList_result [OF assms] show ?thesis
  proof
    assume "r = Returned \<and> c' = c\<lparr>stopList := []\<rparr> \<and> tr' = tr @ stopList c"
    then have "tr' = tr @ take (length (stopList c)) (stopList c)" by simp
    then show ?thesis unfolding called_upto_def by blast
  next
    assume "r = Threw \<and> c' = c \<and> (\<exists>k < length (stopList c). tr' = tr @ take (Suc k) (stopList c)
            \<and> (\<exists>u. fst (sem (stopList c ! k) u) = Threw))"
    then obtain k where "k < length (stopList c)" "tr' = tr @ take (Suc k) (stopList c)" by blast
    then have "Suc k \<le> length (stopList c) \<and> tr' = tr @ take (Suc k) (stopList c)" by simp
    then show ?thesis unfolding called_upto_def by blast
  qed
qed

















section \<open>Global data accessor\<close>

text \<open>
  Claim C8 at a concrete input: one accessor, obtained at the first render, is used for
  two writes to the key \<open>a\<close>. The first write stores 1 and sets the counter to 1. The
  second write stores a value that differs from the stored one, and the counter stays at 1:
  \<open>setCounter(counter + 1)\<close> is called with the \<open>counter\<close> the closure captured.
\<close>

theorem set_acc_twice_counter_stays:
  "get_acc keyed_read (useGlobalData firstRender) ''a''
       (set_acc keyed_read keyed_write (useGlobalData firstRender) ''a'' (VNum 1) firstRender) = VNum 1
   \<and> counterState (set_acc keyed_read keyed_write (useGlobalData firstRender) ''a'' (VNum 1) firstRender) = 1
   \<and> get_acc keyed_read (useGlobalData firstRender) ''a''
       (set_acc keyed_read keyed_write (useGlobalData firstRender) ''a'' (VNum 2)
         (set_acc keyed_read keyed_write (useGlobalData firstRender) ''a'' (VNum 1) firstRender)) = VNum 2
   \<and> counterState (set_acc keyed_read keyed_write (useGlobalData firstRender) ''a'' (VNum 2)
         (set_acc keyed_read keyed_write (useGlobalData firstRender) ''a'' (VNum 1) firstRender)) = 1"
  by (simp add: set_acc_def get_acc_def useGlobalData_def firstRender_def keyed_read_def
      keyed_write_def)

section \<open>Environment substitution\<close>

lemma assoc_set_fresh: "k \<notin> fst ` set kvs \<Longrightarrow> assoc_set kvs k v = kvs @ [(k, v)]"
  by (induction kvs) auto

lemma fold_collect:
  "distinct (map fst acc @ map fst env) \<Longrightarrow>
   fold (\<lambda>(key, val) envs. if env_selected key then assoc_set envs key val else envs) env acc
     = acc @ filter (env_selected \<circ> fst) env"
proof (induction env arbitrary: acc)
  case Nil
  then show ?case by simp
next
  case (Cons e env)
  obtain k v where e: "e = (k, v)" by (cases e)
  show ?case
  proof (cases "env_selected k")
    case True
    have "k \<notin> fst ` set acc" using Cons.prems e by auto
    then have s: "assoc_set acc k v = acc @ [(k, v)]" by (rule assoc_set_fresh)
    have "distinct (map fst (acc @ [(k, v)]) @ map fst env)" using Cons.prems e by auto
    from Cons.IH [OF this] show ?thesis using True e s by simp
  next
    case False
    have "distinct (map fst acc @ map fst env)" using Cons.prems e by auto
    from Cons.IH [OF this] show ?thesis using False e by simp
  qed
qed

lemma collect_envs_filter:
  "distinct (map fst env) \<Longrightarrow> collect_envs env = filter (env_selected \<circ> fst) env"
  using fold_collect [of "[]" env] by (simp add: collect_envs_def)

text \<open>
  Claim C10. Two environments (each with distinct variable names) that hold the same
  entries among the variables whose name starts with \<open>GOLDFISH_APP\<close> or is \<open>NODE_ENV\<close>
  give the same set of replacements; when those entries also come in the same order, the
  handler pipes the same replacements in the same order and hands the same stream to
  \<open>cb\<close>. No other variable is read.
\<close>

theorem pds_env_only_selected_variables:
  assumes "distinct (map fst e1)" and "distinct (map fst e2)"
    and "set (filter (env_selected \<circ> fst) e1) = set (filter (env_selected \<circ> fst) e2)"
  shows "set (replacements stringify e1) = set (replacements stringify e2)
    \<and> (filter (env_selected \<circ> fst) e1 = filter (env_selected \<circ> fst) e2 \<longrightarrow>
         pdsCustomHandle e1 stringify pipe_replace cb stream
           = pdsCustomHandle e2 stringify pipe_replace cb stream)"
  using assms by (simp add: replacements_def pdsCustomHandle_def collect_envs_filter)

theorem pds_env_only_selected_variables_witness:
  "set (replacements quoted envA) = set (replacements quoted envB)
   \<and> pdsCustomHandle envA quoted record_pipe id [] = pdsCustomHandle envB quoted record_pipe id []
   \<and> pdsCustomHandle envA quoted record_pipe id []
     = [(''process.env.NODE_ENV'', quoted ''production''),
        (''process.env.GOLDFISH_APP_ID'', quoted ''42'')]"
proof -
  have d: "distinct (map fst envA)" "distinct (map fst envB)"
    by (simp_all add: envA_def envB_def)
  have f: "filter (env_selected \<circ> fst) envA = filter (env_selected \<circ> fst) envB"
    by (simp add: envA_def envB_def env_selected_def prefixRE_test_def)
  have g: "pdsCustomHandle envA quoted record_pipe id []
     = [(''process.env.NODE_ENV'', quoted ''production''),
        (''process.env.GOLDFISH_APP_ID'', quoted ''42'')]"
    by (simp add: pdsCustomHandle_def collect_envs_def envA_def env_selected_def
        prefixRE_test_def record_pipe_def)
  from f have "set (filter (env_selected \<circ> fst) envA) = set (filter (env_selected \<circ> fst) envB)"
    by simp
  from pds_env_only_selected_variables [OF d this, of quoted record_pipe id "[]"] f g
  show ?thesis by simp
qed

section \<open>Dependency finder\<close>

lemma grows_refl: "grows st st" by (simp add: grows_def)
lemma grows_trans: "grows a b \<Longrightarrow> grows b c \<Longrightarrow> grows a c" by (auto simp: grows_def)

lemma record_all_grows:
  assumes rec: "\<And>st f r st'. rec st f = Some (r, st') \<Longrightarrow> grows st st'"
  shows "record_all rec E p imps result st = Some (r, st') \<Longrightarrow> grows st st'"
proof (induction imps arbitrary: result st)
  case Nil
  then show ?case by (simp add: grows_refl)
next
  case (Cons imp imps)
  show ?case
  proof (cases "resolved E p imp")
    case None
    with Cons.prems show ?thesis by (simp add: grows_refl)
  next
    case (Some f)
    show ?thesis
    proof (cases "rec st f")
      case None
      with Cons.prems Some show ?thesis by simp
    next
      case (Some a)
      obtain x st1 where a: "a = (x, st1)" by (cases a)
      have g1: "grows st st1" using rec Some a by blast
      show ?thesis
      proof (cases x)
        case (Inl e)
        with Cons.prems \<open>resolved E p imp = Some f\<close> Some a g1
        show ?thesis by simp
      next
        case (Inr deps)
        with Cons.prems \<open>resolved E p imp = Some f\<close> Some a
        have "record_all rec E p imps
                 (result @ [\<lparr>importPath = imp, importFilePath = f, jsPath = p\<rparr>] @ deps) st1 = Some (r, st')"
          by simp
        from Cons.IH [OF this] g1 show ?thesis by (rule grows_trans [rotated])
      qed
    qed
  qed
qed

lemma run_grows: "run n E st p = Some (r, st') \<Longrightarrow> grows st st'"
proof (induction n arbitrary: st p r st')
  case 0
  then show ?case by (auto simp: grows_refl split: if_splits)
next
  case (Suc n)
  show ?case
  proof (cases "skips st p")
    case True
    with Suc.prems show ?thesis by (auto simp: grows_refl)
  next
    case False
    then have pv: "p \<notin> visited st" by (simp add: skips_def)
    let ?st1 = "st\<lparr>visited := insert p (visited st)\<rparr>"
    let ?st2 = "?st1\<lparr>parsed := parsed ?st1 @ [p]\<rparr>"
    have g1: "grows st ?st1" by (auto simp: grows_def finder_ok_def)
    have g2: "grows st ?st2" using pv by (auto simp: grows_def finder_ok_def)
    from Suc.prems False have b: "run_body (run n E) E st p = Some (r, st')" by simp
    show ?thesis
    proof (cases "fileCache E p")
      case (Some c)
      with b g1 show ?thesis by (auto simp: run_body_def Let_def)
    next
      case None
      show ?thesis
      proof (cases "map_of (files E) p")
        case None
        with b \<open>fileCache E p = None\<close> g1 show ?thesis by (auto simp: run_body_def Let_def)
      next
        case (Some imps)
        with b \<open>fileCache E p = None\<close>
        obtain r' where "record_all (run n E) E p imps [] ?st2 = Some (r', st')"
          by (auto simp: run_body_def Let_def split: option.splits sum.splits prod.splits)
        then have "grows ?st2 st'"
          by (rule record_all_grows [rotated]) (rule Suc.IH)
        with g2 show ?thesis by (rule grows_trans)
      qed
    qed
  qed
qed

lemma unvisited_mono: "grows st st' \<Longrightarrow> unvisited E st' \<le> unvisited E st"
  unfolding unvisited_def grows_def
  by (intro card_mono) auto

lemma record_all_total:
  assumes rec: "\<And>st f. unvisited E st < n \<Longrightarrow> rec st f \<noteq> None"
    and g: "\<And>st f r st'. rec st f = Some (r, st') \<Longrightarrow> grows st st'"
  shows "unvisited E st < n \<Longrightarrow> record_all rec E p imps result st \<noteq> None"
proof (induction imps arbitrary: result st)
  case Nil
  then show ?case by simp
next
  case (Cons imp imps)
  show ?case
  proof (cases "resolved E p imp")
    case None
    then show ?thesis by simp
  next
    case (Some f)
    from rec [OF Cons.prems] obtain x st1 where a: "rec st f = Some (x, st1)" by fastforce
    then have "grows st st1" by (rule g)
    then have "unvisited E st1 < n" using unvisited_mono Cons.prems by (meson le_less_trans)
    then have "\<And>res. record_all rec E p imps res st1 \<noteq> None" by (rule Cons.IH)
    then show ?thesis using Some a by (cases x) auto
  qed
qed

lemma run_total: "unvisited E st < n \<Longrightarrow> run n E st p \<noteq> None"
proof (induction n arbitrary: st p)
  case 0
  then show ?case by simp
next
  case (Suc n)
  show ?case
  proof (cases "skips st p")
    case True
    then show ?thesis by simp
  next
    case False
    then have pv: "p \<notin> visited st" by (simp add: skips_def)
    let ?st1 = "st\<lparr>visited := insert p (visited st)\<rparr>"
    let ?st2 = "?st1\<lparr>parsed := parsed ?st1 @ [p]\<rparr>"
    show ?thesis
    proof (cases "fileCache E p")
      case (Some c)
      with False show ?thesis by (simp add: run_body_def Let_def)
    next
      case None
      show ?thesis
      proof (cases "map_of (files E) p")
        case None
        with False \<open>fileCache E p = None\<close> show ?thesis by (simp add: run_body_def Let_def)
      next
        case (Some imps)
        then have pin: "p \<in> set (map fst (files E))" by (metis map_of_eq_None_iff option.distinct(1) set_map)
        have "set (map fst (files E)) - visited ?st2 \<subset> set (map fst (files E)) - visited st"
          using pin pv by auto
        then have "unvisited E ?st2 < unvisited E st"
          unfolding unvisited_def by (intro psubset_card_mono) auto
        with Suc.prems have lt: "unvisited E ?st2 < n" by simp
        have r1: "\<And>st f. unvisited E st < n \<Longrightarrow> run n E st f \<noteq> None" by (rule Suc.IH)
        have r2: "\<And>st f r st'. run n E st f = Some (r, st') \<Longrightarrow> grows st st'" by (rule run_grows)
        have "record_all (run n E) E p imps [] ?st2 \<noteq> None"
          using r1 r2 lt by (rule record_all_total)
        with False \<open>fileCache E p = None\<close> Some show ?thesis
          by (auto simp: run_body_def Let_def split: option.splits sum.splits prod.splits)
      qed
    qed
  qed
qed

lemma run_ok: "run n E st p = Some (r, st') \<Longrightarrow> finder_ok st \<Longrightarrow> finder_ok st'"
  using run_grows [of n E st p r st'] by (simp add: grows_def)

lemma unvisited_le: "unvisited E st \<le> length (files E)"
proof -
  have "card (set (map fst (files E)) - visited st) \<le> card (set (map fst (files E)))"
    by (intro card_mono) auto
  also have "\<dots> \<le> length (map fst (files E))" by (rule card_length)
  finally show ?thesis by (simp add: unvisited_def)
qed

text \<open>
  Claim C9. On every finite import graph, cyclic or not, \<open>findJsDependencyModules\<close>
  returns or throws: any fuel above the number of readable files is enough. In the run no
  file is parsed twice. For every amount of fuel, \<open>run\<close> returns the empty list and leaves
  the finder as it was when the path does not start with \<open>/\<close>, ends with \<open>.json\<close> or was
  visited before.
\<close>

theorem finder_terminates_and_parses_once:
  "(length (files E) < n \<longrightarrow>
      (\<exists>r st'. findJsDependencyModules n E p = Some (r, st') \<and> distinct (parsed st')))
   \<and> (\<not> startsWith p ''/'' \<or> endsWith p ''.json'' \<or> p \<in> visited st
        \<longrightarrow> run m E st p = Some (Inr [], st))"
proof (intro conjI impI)
  assume "length (files E) < n"
  let ?st0 = "\<lparr>visited = {}, parsed = []\<rparr>"
  have "unvisited E ?st0 < n" using unvisited_le [of E ?st0] \<open>length (files E) < n\<close> by simp
  then have "run n E ?st0 p \<noteq> None" by (rule run_total)
  then obtain r st' where r: "run n E ?st0 p = Some (r, st')" by fastforce
  have "finder_ok ?st0" by (simp add: finder_ok_def)
  with r have "finder_ok st'" by (rule run_ok)
  with r show "\<exists>r st'. findJsDependencyModules n E p = Some (r, st') \<and> distinct (parsed st')"
    by (auto simp: findJsDependencyModules_def finder_ok_def)
next
  assume "\<not> startsWith p ''/'' \<or> endsWith p ''.json'' \<or> p \<in> visited st"
  then have "skips st p" by (simp add: skips_def)
  then show "run m E st p = Some (Inr [], st)" by (cases m) simp_all
qed

lemma cyclic_run:
  "findJsDependencyModules 3 cyclicEnv ''/src/a.js'' =
     Some (Inr [\<lparr>importPath = ''./b'', importFilePath = ''/src/b.js'', jsPath = ''/src/a.js''\<rparr>,
                \<lparr>importPath = ''./a'', importFilePath = ''/src/a.js'', jsPath = ''/src/b.js''\<rparr>,
                \<lparr>importPath = ''lodash'', importFilePath = ''lodash'', jsPath = ''/src/b.js''\<rparr>,
                \<lparr>importPath = ''./data.json'', importFilePath = ''/src/data.json'',
                  jsPath = ''/src/a.js''\<rparr>],
           \<lparr>visited = {''/src/a.js'', ''/src/b.js''}, parsed = [''/src/a.js'', ''/src/b.js'']\<rparr>)"
  by (simp add: findJsDependencyModules_def cyclicEnv_def numeral_3_eq_3 run_body_def skips_def
      startsWith_def endsWith_def resolved_def correctImportPath_def Let_def insert_commute)

theorem finder_terminates_and_parses_once_witness:
  "(\<exists>r st'. findJsDependencyModules 3 cyclicEnv ''/src/a.js'' = Some (r, st')
       \<and> distinct (parsed st') \<and> parsed st' = [''/src/a.js'', ''/src/b.js''])
   \<and> run 0 cyclicEnv \<lparr>visited = {''/src/a.js''}, parsed = [''/src/a.js'']\<rparr> ''/src/a.js''
       = Some (Inr [], \<lparr>visited = {''/src/a.js''}, parsed = [''/src/a.js'']\<rparr>)"
proof -
  have l: "length (files cyclicEnv) < 3" by (simp add: cyclicEnv_def)
  have v: "''/src/a.js'' \<in> visited \<lparr>visited = {''/src/a.js''}, parsed = [''/src/a.js'']\<rparr>"
    by simp
  from finder_terminates_and_parses_once
    [of cyclicEnv 3 "''/src/a.js''" "\<lparr>visited = {''/src/a.js''}, parsed = [''/src/a.js'']\<rparr>" 0]
    l v
  have "(\<exists>r st'. findJsDependencyModules 3 cyclicEnv ''/src/a.js'' = Some (r, st')
           \<and> distinct (parsed st'))
      \<and> run 0 cyclicEnv \<lparr>visited = {''/src/a.js''}, parsed = [''/src/a.js'']\<rparr> ''/src/a.js''
          = Some (Inr [], \<lparr>visited = {''/src/a.js''}, parsed = [''/src/a.js'']\<rparr>)"
    by blast
  then show ?thesis using cyclic_run by auto
qed

section \<open>Deep watch\<close>

subsection \<open>The walk only adds registrations and calls\<close>

lemma asObject_simps [simp]:
  "asObject (VRef r) = Some r"
  "asObject VUndefined = None"
  "asObject VNull = None"
  "asObject (VBool b) = None"
  "asObject (VNum n) = None"
  "asObject VNaN = None"
  "asObject (VStr s) = None"
  "asObject (VSymbol y) = None"
  "asObject (VBigInt n) = None"
  "asObject (VFun f) = None"
  by (simp_all add: asObject_def)














subsection \<open>The key path handed to the outer callback\<close>



subsection \<open>Coverage of the existing subtree\<close>








subsection \<open>The walk with and without \<open>immediate\<close>\<close>

lemma installed_None [simp]: "installed None = None"
  by (simp add: installed_def)














subsection \<open>Without \<open>immediate\<close> no callback runs during the walk\<close>



subsection \<open>The registrations of a walk, in order\<close>









subsection \<open>The claims about the walk\<close>

text \<open>
  Claim C4. For a root that is \<open>null\<close>, \<open>undefined\<close> or of a type other than \<open>object\<close>,
  \<open>watchDeep\<close> returns, for every amount of fuel, the empty disposer list and the state it
  was given: no watch is registered and no callback runs.
\<close>

theorem watchDeep_non_composite_root:
  "watchDeep n VUndefined opts w = Some ([], w)
   \<and> watchDeep n VNull opts w = Some ([], w)
   \<and> watchDeep n (VBool b) opts w = Some ([], w)
   \<and> watchDeep n (VNum x) opts w = Some ([], w)
   \<and> watchDeep n VNaN opts w = Some ([], w)
   \<and> watchDeep n (VStr s) opts w = Some ([], w)
   \<and> watchDeep n (VSymbol y) opts w = Some ([], w)
   \<and> watchDeep n (VBigInt z) opts w = Some ([], w)
   \<and> watchDeep n (VFun f) opts w = Some ([], w)"
  by (cases n) (simp_all add: watchDeep_def)













text \<open>
  Claim C1 at a concrete input: \<open>{ a: { b: 1 } }\<close> watched without options. Two watches
  are registered and one disposer is returned; after every returned disposer has run, the
  watch on \<open>b\<close> is still running, and a write to \<open>obj.a.b\<close> still reaches the outer
  callback.
\<close>

theorem returned_disposers_leave_nested_watch_running:
  "(case watchDeep 2 (VRef 0) None world2 of
      None \<Rightarrow> False
    | Some (stops, w) \<Rightarrow>
        stops = [0]
        \<and> watching w = [(0, KStr ''a'', []), (1, KStr ''b'', [KStr ''a''])]
        \<and> watching (stopAll stops w) = [(1, KStr ''b'', [KStr ''a''])]
        \<and> map_option calls (writeProp 2 W2 1 (KStr ''b'') (VNum 5) (VStr ''set'') (stopAll stops w))
            = Some [\<lparr>c_obj = VRef 0, c_keyPathList = [KStr ''a'', KStr ''b''], c_newV = VNum 5,
                     c_oldV = VNum 1, c_options = VStr ''set''\<rparr>])"
  by code_simp

text \<open>
  Claim C2 at a concrete input: \<open>{ a: { b: { c: 1 } } }\<close> watched without options, then
  \<open>obj.a = { x: 1 }\<close>. The callback of \<open>a\<close> stops the watch on \<open>b\<close> and installs one on \<open>x\<close>;
  the watch on \<open>c\<close> of the replaced subtree keeps running, and a write to that \<open>c\<close> still
  reaches the outer callback with key path \<open>['a', 'b', 'c']\<close>.
\<close>

theorem replaced_subtree_leaves_grandchild_watch_running:
  "(case watchDeep 3 (VRef 0) None world3 of
      None \<Rightarrow> False
    | Some (stops, w) \<Rightarrow>
        watching w = [(0, KStr ''a'', []), (1, KStr ''b'', [KStr ''a'']),
                      (2, KStr ''c'', [KStr ''a'', KStr ''b''])]
        \<and> (case writeProp 3 W2 0 (KStr ''a'') (VRef 3) (VStr ''set'') w of
              None \<Rightarrow> False
            | Some w1 \<Rightarrow>
                watching w1 = [(0, KStr ''a'', []), (2, KStr ''c'', [KStr ''a'', KStr ''b'']),
                               (3, KStr ''x'', [KStr ''a''])]
                \<and> map_option calls (writeProp 3 W2 2 (KStr ''c'') (VNum 7) (VStr ''set'') w1)
                    = Some [\<lparr>c_obj = VRef 0, c_keyPathList = [KStr ''a''], c_newV = VRef 3,
                             c_oldV = VRef 1, c_options = VStr ''set''\<rparr>,
                            \<lparr>c_obj = VRef 0, c_keyPathList = [KStr ''a'', KStr ''b'', KStr ''c''],
                             c_newV = VNum 7, c_oldV = VNum 1, c_options = VStr ''set''\<rparr>]))"
  by code_simp

text \<open>
  The replaced subtree of the specification's example is one level deep, and there the
  callback does all it should: \<open>obj.a = { c: 2 }\<close> calls the outer callback for \<open>['a']\<close>,
  stops the watch on \<open>b\<close> and installs one on \<open>c\<close>; \<open>obj.a.c = 3\<close> is reported for
  \<open>['a', 'c']\<close>; a write to the old \<open>b\<close> is not reported.
\<close>

lemma subtree_replacement_one_level:
  "(case watchDeep 2 (VRef 0) None world2 of
      None \<Rightarrow> False
    | Some (stops, w) \<Rightarrow>
        (case writeProp 2 W2 0 (KStr ''a'') (VRef 2) (VStr ''set'') w of
           None \<Rightarrow> False
         | Some w1 \<Rightarrow>
             calls w1 = [\<lparr>c_obj = VRef 0, c_keyPathList = [KStr ''a''], c_newV = VRef 2,
                          c_oldV = VRef 1, c_options = VStr ''set''\<rparr>]
             \<and> watching w1 = [(0, KStr ''a'', []), (2, KStr ''c'', [KStr ''a''])]
             \<and> (case writeProp 2 W2 2 (KStr ''c'') (VNum 3) (VStr ''set'') w1 of
                   None \<Rightarrow> False
                 | Some w2 \<Rightarrow>
                     calls w2 = calls w1 @
                        [\<lparr>c_obj = VRef 0, c_keyPathList = [KStr ''a'', KStr ''c''], c_newV = VNum 3,
                          c_oldV = VNum 2, c_options = VStr ''set''\<rparr>]
                     \<and> map_option calls (writeProp 2 W2 1 (KStr ''b'') (VNum 9) (VStr ''set'') w2)
                         = Some (calls w2))))"
  by code_simp

end

